theory Spec2Isabelle
  imports Main "HOL-Library.Multiset"
begin

section \<open>Data model\<close>

text \<open>
  The structure \<open>AMI\<close> of \<open>main.go\<close> (lines 17-25): the record kept for an image in one of the
  four category maps. All seven fields are Go strings.
\<close>

record AMI =
  ID :: string
  Region :: string
  OwnerAlias :: string
  OwnerID :: string
  Name :: string
  Description :: string
  Public :: string

text \<open>
  The fields of the SDK's \<open>types.Image\<close> that \<open>main\<close> reads. \<open>Public\<close> is dereferenced
  directly (\<open>*image.Public\<close>), so it is a plain boolean here; the four others are read through
  \<open>ptr.ToString\<close> and may be absent.
\<close>

record Image =
  ImagePublic :: bool
  ImageOwnerAlias :: "string option"
  ImageOwnerId :: "string option"
  ImageName :: "string option"
  ImageDescription :: "string option"

text \<open>\<open>ptr.ToString\<close>: the pointed-to string, or the empty string for a nil pointer.\<close>

definition ToString :: "string option \<Rightarrow> string" where
  "ToString p = (case p of None \<Rightarrow> [] | Some s \<Rightarrow> s)"

text \<open>
  The fields of \<open>types.Instance\<close> and \<open>types.Reservation\<close> that \<open>main\<close> reads; both
  identifiers are dereferenced directly in the source.
\<close>

record Instance =
  InstanceId :: string
  ImageId :: string

record Reservation =
  Instances :: "Instance list"

datatype error = ApiError string

text \<open>
  The cloud account as the program sees it. Every call either fails or returns its output.
  \<open>DescribeInstances region filter\<close> is the call of lines 101 and 121: the client is bound to
  \<open>region\<close>, and \<open>filter\<close> is \<open>None\<close> for the listing call and \<open>Some instanceID\<close> for the call
  with \<open>InstanceIds: []string{instanceID}\<close>. \<open>DescribeImages region amiID\<close> is the call of
  line 146. The answers are taken to be functions of the request: the account does not change
  while the scan runs.
\<close>

record aws =
  LoadDefaultConfig :: "error option"
  GetCallerIdentity :: "error + string"
  DescribeRegions :: "error + string list"
  DescribeInstances :: "string \<Rightarrow> string option \<Rightarrow> error + Reservation list"
  DescribeImages :: "string \<Rightarrow> string \<Rightarrow> error + Image list"

text \<open>
  The variables of \<open>main\<close> that the region loop updates (lines 84-89). A Go map is a partial
  function; \<open>len\<close> of a map is the number of its keys. \<open>totalInstances\<close> is a Go \<open>int\<close> that
  only grows by the lengths of the listings, far from the range where it could wrap, so it is a
  natural number here. \<open>describeImagesCalls\<close> is not a variable of the source: it records, in
  order, the \<open>DescribeImages\<close> requests the loop has issued, as (region, image id), so that
  statements about how often the resolver is invoked can be made.
\<close>

record scan_state =
  processedAMIs :: "string \<rightharpoonup> bool"
  verifiedAMIs :: "string \<rightharpoonup> AMI"
  unverifiedAMIs :: "string \<rightharpoonup> AMI"
  unknownAMIs :: "string \<rightharpoonup> AMI"
  privateAMIs :: "string \<rightharpoonup> AMI"
  totalInstances :: nat
  describeImagesCalls :: "(string \<times> string) list"

definition initial :: scan_state where
  "initial = \<lparr>processedAMIs = Map.empty, verifiedAMIs = Map.empty, unverifiedAMIs = Map.empty,
     unknownAMIs = Map.empty, privateAMIs = Map.empty, totalInstances = 0,
     describeImagesCalls = []\<rparr>"

section \<open>The region loop\<close>

text \<open>
  Lines 171-209, the body of the loop over \<open>imageOutput.Images\<close>: build the record and file it.
  A public image whose alias is neither empty, \<open>amazon\<close> nor \<open>self\<close> reaches no assignment.
\<close>

definition classifyImage :: "string \<Rightarrow> string \<Rightarrow> Image \<Rightarrow> scan_state \<Rightarrow> scan_state" where
  "classifyImage region amiID img st =
     (let publicString = (if ImagePublic img then ''Public'' else ''Private'');
          ami = \<lparr>ID = amiID, Region = region,
                 OwnerAlias = ToString (ImageOwnerAlias img),
                 OwnerID = ToString (ImageOwnerId img),
                 Name = ToString (ImageName img),
                 Description = ToString (ImageDescription img),
                 Public = publicString\<rparr>
      in if ImagePublic img then
           if OwnerAlias ami \<noteq> [] then
             if OwnerAlias ami = ''amazon'' then
               st\<lparr>verifiedAMIs := (verifiedAMIs st)(amiID \<mapsto> ami)\<rparr>
             else if OwnerAlias ami = ''self'' then
               st\<lparr>privateAMIs := (privateAMIs st)(amiID \<mapsto> ami\<lparr>OwnerAlias := ''self''\<rparr>)\<rparr>
             else st
           else st\<lparr>unverifiedAMIs := (unverifiedAMIs st)(amiID \<mapsto> ami)\<rparr>
         else st\<lparr>privateAMIs := (privateAMIs st)(amiID \<mapsto> ami)\<rparr>)"

text \<open>
  Lines 146-210: the \<open>DescribeImages\<close> request for an image id and what is done with its
  answer. An error leaves the maps as they are (\<open>continue\<close>); an empty list files the all-Unknown
  record; otherwise every returned image is classified in turn.
\<close>

definition resolveAMI :: "aws \<Rightarrow> string \<Rightarrow> string \<Rightarrow> scan_state \<Rightarrow> scan_state" where
  "resolveAMI env region amiID st =
     (case DescribeImages env region amiID of
        Inl err \<Rightarrow> st
      | Inr images \<Rightarrow>
          if length images = 0 then
            st\<lparr>unknownAMIs := (unknownAMIs st)(amiID \<mapsto>
                 \<lparr>ID = amiID, Region = region, OwnerAlias = ''Unknown'', OwnerID = ''Unknown'',
                  Name = ''Unknown'', Description = ''Unknown'', Public = ''Unknown''\<rparr>)\<rparr>
          else fold (classifyImage region amiID) images st)"

text \<open>The Go expression \<open>processedAMIs[amiID]\<close>: reading a missing key gives \<open>false\<close>.\<close>

definition seen :: "scan_state \<Rightarrow> string \<Rightarrow> bool" where
  "seen st amiID = (case processedAMIs st amiID of None \<Rightarrow> False | Some b \<Rightarrow> b)"

text \<open>
  Lines 131-210, the body of the innermost instance loop for one image id. The id is marked
  before the request is made.
\<close>

definition processAMI :: "aws \<Rightarrow> string \<Rightarrow> string \<Rightarrow> scan_state \<Rightarrow> scan_state" where
  "processAMI env region amiID st =
     (if seen st amiID then st
      else resolveAMI env region amiID
             (st\<lparr>processedAMIs := (processedAMIs st)(amiID \<mapsto> True),
                 describeImagesCalls := describeImagesCalls st @ [(region, amiID)]\<rparr>))"

text \<open>Lines 119-213: one iteration of the loop over \<open>instanceIDs\<close>.\<close>

definition scanInstance :: "aws \<Rightarrow> string \<Rightarrow> string \<Rightarrow> scan_state \<Rightarrow> scan_state" where
  "scanInstance env region instanceID st =
     (case DescribeInstances env region (Some instanceID) of
        Inl err \<Rightarrow> st
      | Inr reservations \<Rightarrow>
          fold (\<lambda>reservation.
                  fold (\<lambda>inst. processAMI env region (ImageId inst))
                       (Instances reservation))
               reservations st)"

text \<open>Lines 107-112: the instance ids of a listing, appended in the order of the nested loops.\<close>

definition collectInstanceIDs :: "Reservation list \<Rightarrow> string list" where
  "collectInstanceIDs reservations =
     fold (\<lambda>reservation.
             fold (\<lambda>inst instanceIDs. instanceIDs @ [InstanceId inst])
                  (Instances reservation))
          reservations []"

text \<open>Lines 93-214: one iteration of the loop over \<open>regions\<close>.\<close>

definition scanRegion :: "aws \<Rightarrow> string \<Rightarrow> scan_state \<Rightarrow> scan_state" where
  "scanRegion env region st =
     (case DescribeInstances env region None of
        Inl err \<Rightarrow> st
      | Inr reservations \<Rightarrow>
          (let instanceIDs = collectInstanceIDs reservations;
               st1 = st\<lparr>totalInstances := totalInstances st + length instanceIDs\<rparr>
           in if length instanceIDs = 0 then st1
              else fold (scanInstance env region) instanceIDs st1))"

text \<open>Lines 84-214: the whole loop, from the empty maps.\<close>

definition scan :: "aws \<Rightarrow> string list \<Rightarrow> scan_state" where
  "scan env regions = fold (scanRegion env) regions initial"

section \<open>Summary\<close>

text \<open>The six numbers of the summary (lines 233-239).\<close>

record summary =
  TotalInstances :: nat
  TotalAMIs :: nat
  PrivateAMIs :: nat
  VerifiedAMIs :: nat
  UnknownAMIs :: nat
  UnverifiedAMIs :: nat

definition summarise :: "scan_state \<Rightarrow> summary" where
  "summarise st =
     \<lparr>TotalInstances = totalInstances st,
      TotalAMIs = card (dom (processedAMIs st)),
      PrivateAMIs = card (dom (privateAMIs st)),
      VerifiedAMIs = card (dom (verifiedAMIs st)),
      UnknownAMIs = card (dom (unknownAMIs st)),
      UnverifiedAMIs = card (dom (unverifiedAMIs st))\<rparr>"

text \<open>
  \<open>main\<close> up to the summary (lines 29-239), for the value \<open>region\<close> of the \<open>-region\<close> flag.
  \<open>Inl\<close> is \<open>os.Exit(1)\<close> after the error has been printed; \<open>Inr\<close> is the summary printed.
\<close>

definition main :: "aws \<Rightarrow> string \<Rightarrow> error + summary" where
  "main env region =
     (case LoadDefaultConfig env of
        Some err \<Rightarrow> Inl err
      | None \<Rightarrow>
          (case GetCallerIdentity env of
             Inl err \<Rightarrow> Inl err
           | Inr account \<Rightarrow>
               (if region = [] then
                  (case DescribeRegions env of
                     Inl err \<Rightarrow> Inl err
                   | Inr regions \<Rightarrow> Inr (summarise (scan env regions)))
                else Inr (summarise (scan env [region])))))"

section \<open>Export\<close>

text \<open>
  Lines 250-262. Each \<open>WriteString\<close> appends one line. The order in which \<open>range\<close> visits the
  keys of a map is not fixed by the language, so the export takes, for each of the four maps, the
  order in which its keys are visited; \<open>iterates m ks\<close> says that \<open>ks\<close> visits every key of
  \<open>m\<close> once.
\<close>

record iteration =
  verifiedOrder :: "string list"
  privateOrder :: "string list"
  unknownOrder :: "string list"
  unverifiedOrder :: "string list"

definition iterates :: "(string \<rightharpoonup> AMI) \<Rightarrow> string list \<Rightarrow> bool" where
  "iterates m ks \<longleftrightarrow> distinct ks \<and> set ks = dom m"

definition rangeMap :: "string list \<Rightarrow> (string \<rightharpoonup> AMI) \<Rightarrow> AMI list" where
  "rangeMap ks m = List.map_filter m ks"

definition header :: string where
  "header = ''AMI ID|Region|whoAMI status|Public|Owner Alias|Owner ID|Name|Description\<newline>''"

definition fullRow :: "string \<Rightarrow> AMI \<Rightarrow> string" where
  "fullRow status ami =
     ID ami @ ''|'' @ Region ami @ ''|'' @ status @ ''|'' @ Public ami @ ''|'' @ OwnerAlias ami
       @ ''|'' @ OwnerID ami @ ''|'' @ Name ami @ ''|'' @ Description ami @ ''\<newline>''"

definition unknownRow :: "AMI \<Rightarrow> string" where
  "unknownRow ami =
     ID ami @ ''|'' @ Region ami @ ''|Unknown|Unknown|Unknown|Unknown|Unknown\<newline>''"

text \<open>The lines written by each of the four loops, and the whole file.\<close>

definition verifiedRows :: "iteration \<Rightarrow> scan_state \<Rightarrow> string list" where
  "verifiedRows it st = map (fullRow ''Verified'') (rangeMap (verifiedOrder it) (verifiedAMIs st))"

definition privateRows :: "iteration \<Rightarrow> scan_state \<Rightarrow> string list" where
  "privateRows it st = map (fullRow ''Private'') (rangeMap (privateOrder it) (privateAMIs st))"

definition unknownRows :: "iteration \<Rightarrow> scan_state \<Rightarrow> string list" where
  "unknownRows it st = map unknownRow (rangeMap (unknownOrder it) (unknownAMIs st))"

definition unverifiedRows :: "iteration \<Rightarrow> scan_state \<Rightarrow> string list" where
  "unverifiedRows it st =
     map (fullRow ''Unverified'') (rangeMap (unverifiedOrder it) (unverifiedAMIs st))"

definition reportLines :: "iteration \<Rightarrow> scan_state \<Rightarrow> string list" where
  "reportLines it st =
     header # verifiedRows it st @ privateRows it st @ unknownRows it st @ unverifiedRows it st"

definition writeReport :: "iteration \<Rightarrow> scan_state \<Rightarrow> string" where
  "writeReport it st = concat (reportLines it st)"

definition validIteration :: "iteration \<Rightarrow> scan_state \<Rightarrow> bool" where
  "validIteration it st \<longleftrightarrow>
     iterates (verifiedAMIs st) (verifiedOrder it) \<and> iterates (privateAMIs st) (privateOrder it)
     \<and> iterates (unknownAMIs st) (unknownOrder it)
     \<and> iterates (unverifiedAMIs st) (unverifiedOrder it)"

text \<open>The number of columns of a line: one more than its number of separators.\<close>

definition columns :: "string \<Rightarrow> nat" where
  "columns line = Suc (count_list line (CHR ''|''))"

section \<open>Notions used in the statements\<close>

subsection \<open>What the maps hold for an image id\<close>

text \<open>
  \<open>entries\<close> is what the four category maps hold for an image id, in the order verified,
  private, unknown, unverified; \<open>bucketsHolding\<close> counts the maps that hold the id and
  \<open>records\<close> collects the records held for it. \<open>outcome\<close> is what lines 146-210 file for an id
  resolved in a region when nothing has been filed for it yet; \<open>unknownRecord\<close> is the record
  of lines 157-165.
\<close>

type_synonym filed = "AMI option \<times> AMI option \<times> AMI option \<times> AMI option"

definition entries :: "scan_state \<Rightarrow> string \<Rightarrow> filed" where
  "entries st amiID =
     (verifiedAMIs st amiID, privateAMIs st amiID, unknownAMIs st amiID, unverifiedAMIs st amiID)"

definition holding :: "filed \<Rightarrow> nat" where
  "holding e = (case e of (v, p, u, uv) \<Rightarrow>
     (if v = None then 0 else 1) + (if p = None then 0 else 1)
     + (if u = None then 0 else 1) + (if uv = None then 0 else 1))"

definition bucketsHolding :: "scan_state \<Rightarrow> string \<Rightarrow> nat" where
  "bucketsHolding st amiID = holding (entries st amiID)"

definition held :: "filed \<Rightarrow> AMI set" where
  "held e = (case e of (v, p, u, uv) \<Rightarrow>
     set_option v \<union> set_option p \<union> set_option u \<union> set_option uv)"

definition records :: "scan_state \<Rightarrow> string \<Rightarrow> AMI set" where
  "records st amiID = held (entries st amiID)"

definition unknownRecord :: "string \<Rightarrow> string \<Rightarrow> AMI" where
  "unknownRecord region amiID =
     \<lparr>ID = amiID, Region = region, OwnerAlias = ''Unknown'', OwnerID = ''Unknown'',
      Name = ''Unknown'', Description = ''Unknown'', Public = ''Unknown''\<rparr>"

definition outcome :: "aws \<Rightarrow> string \<Rightarrow> string \<Rightarrow> filed" where
  "outcome env region amiID = entries (resolveAMI env region amiID initial) amiID"

subsection \<open>What a region reports\<close>

text \<open>
  \<open>listed\<close> is the list of instance ids the loop of line 119 runs over in a region (empty when
  the listing fails), \<open>visitedBy\<close> the image ids reached from one of these instances (none
  when its request fails), and \<open>visited\<close> the image ids the region passes to the dedup guard,
  in the order of the loops. A region observes an image id when the id is among them.
\<close>

definition imageIDs :: "Reservation list \<Rightarrow> string list" where
  "imageIDs reservations = map ImageId (concat (map Instances reservations))"

definition visitedBy :: "aws \<Rightarrow> string \<Rightarrow> string \<Rightarrow> string list" where
  "visitedBy env region instanceID =
     (case DescribeInstances env region (Some instanceID) of
        Inl err \<Rightarrow> [] | Inr reservations \<Rightarrow> imageIDs reservations)"

definition listed :: "aws \<Rightarrow> string \<Rightarrow> string list" where
  "listed env region =
     (case DescribeInstances env region None of
        Inl err \<Rightarrow> [] | Inr reservations \<Rightarrow> map InstanceId (concat (map Instances reservations)))"

definition visited :: "aws \<Rightarrow> string \<Rightarrow> string list" where
  "visited env region = concat (map (visitedBy env region) (listed env region))"

definition observes :: "aws \<Rightarrow> string \<Rightarrow> string \<Rightarrow> bool" where
  "observes env amiID region \<longleftrightarrow> amiID \<in> set (visited env region)"

subsection \<open>The dedup ledger against the requests issued\<close>

text \<open>
  The invariant of the loop: no image id was requested twice; the marked ids are exactly the
  requested ones; an id never requested has no record; and a requested id has the records that
  its one request filed.
\<close>

definition consistent :: "aws \<Rightarrow> scan_state \<Rightarrow> bool" where
  "consistent env st \<longleftrightarrow>
     distinct (map snd (describeImagesCalls st))
     \<and> (\<forall>amiID. processedAMIs st amiID =
           (if amiID \<in> snd ` set (describeImagesCalls st) then Some True else None))
     \<and> (\<forall>amiID. amiID \<notin> snd ` set (describeImagesCalls st) \<longrightarrow> entries st amiID = (None, None, None, None))
     \<and> (\<forall>(region, amiID) \<in> set (describeImagesCalls st). entries st amiID = outcome env region amiID)"

text \<open>
  The states the loop passes through: the initial one, and from any such state the one after
  adding to the instance total (line 114) and the one after the body of the innermost loop has
  run for some region and image id (lines 131-210).
\<close>

inductive reachable :: "aws \<Rightarrow> scan_state \<Rightarrow> bool" for env :: aws where
  start: "reachable env initial"
| counted: "reachable env st \<Longrightarrow> reachable env (st\<lparr>totalInstances := totalInstances st + n\<rparr>)"
| processed: "reachable env st \<Longrightarrow> reachable env (processAMI env region amiID st)"

subsection \<open>Conditions on the answers\<close>

text \<open>
  \<open>classifiable\<close> holds for the images that the chain of lines 186-209 assigns to a map: the
  private ones, and the public ones whose alias is empty, \<open>amazon\<close> or \<open>self\<close>.
  \<open>singleImage\<close> and \<open>singleInstance\<close> say that a request that names one image id, or one
  instance id, is answered with at most one image, or one instance.
\<close>

definition classifiable :: "Image \<Rightarrow> bool" where
  "classifiable img \<longleftrightarrow>
     \<not> ImagePublic img \<or> ToString (ImageOwnerAlias img) = []
     \<or> ToString (ImageOwnerAlias img) = ''amazon'' \<or> ToString (ImageOwnerAlias img) = ''self''"

definition singleImage :: "aws \<Rightarrow> bool" where
  "singleImage env \<longleftrightarrow>
     (\<forall>region amiID images. DescribeImages env region amiID = Inr images \<longrightarrow> length images \<le> 1)"

definition singleInstance :: "aws \<Rightarrow> bool" where
  "singleInstance env \<longleftrightarrow>
     (\<forall>region instanceID reservations.
        DescribeInstances env region (Some instanceID) = Inr reservations
        \<longrightarrow> length (imageIDs reservations) \<le> 1)"

section \<open>Sample accounts\<close>

text \<open>
  Accounts with three regions: \<open>us-east-1\<close> runs instances on \<open>ami-1\<close> and \<open>ami-2\<close>,
  \<open>eu-west-1\<close> on \<open>ami-1\<close> again and on \<open>ami-3\<close>, and the listing fails in \<open>ap-east-1\<close>.
  They differ in the answers to \<open>DescribeImages\<close>. In \<open>scenario\<close>, \<open>ami-1\<close> is a public
  Amazon image, \<open>ami-2\<close> a public image without alias and \<open>ami-3\<close> is not found; in
  \<open>throttled\<close> every request fails; in \<open>flaky\<close> only the request for \<open>ami-1\<close> fails, the
  others being answered as in \<open>scenario\<close>; in \<open>doubled\<close> every request returns two images; in
  \<open>thirdParty\<close> every image is public with the alias \<open>12345\<close>; in \<open>verifiedPair\<close> every
  image is a public Amazon image.
\<close>

definition amazonImage :: Image where
  "amazonImage = \<lparr>ImagePublic = True, ImageOwnerAlias = Some ''amazon'',
     ImageOwnerId = Some ''137112412989'', ImageName = Some ''al2023-ami'',
     ImageDescription = Some ''Amazon Linux 2023''\<rparr>"

definition communityImage :: Image where
  "communityImage = \<lparr>ImagePublic = True, ImageOwnerAlias = None,
     ImageOwnerId = Some ''999999999999'', ImageName = Some ''ubuntu-like'',
     ImageDescription = None\<rparr>"

definition privateImage :: Image where
  "privateImage = \<lparr>ImagePublic = False, ImageOwnerAlias = None,
     ImageOwnerId = Some ''111122223333'', ImageName = Some ''golden'',
     ImageDescription = None\<rparr>"

definition thirdPartyImage :: Image where
  "thirdPartyImage = \<lparr>ImagePublic = True, ImageOwnerAlias = Some ''12345'',
     ImageOwnerId = Some ''999999999999'', ImageName = Some ''ubuntu-like'',
     ImageDescription = None\<rparr>"

definition instancesIn :: "string \<Rightarrow> Instance list option" where
  "instancesIn region =
     (if region = ''us-east-1'' then
        Some [\<lparr>InstanceId = ''i-1'', ImageId = ''ami-1''\<rparr>, \<lparr>InstanceId = ''i-2'', ImageId = ''ami-2''\<rparr>]
      else if region = ''eu-west-1'' then
        Some [\<lparr>InstanceId = ''i-3'', ImageId = ''ami-1''\<rparr>, \<lparr>InstanceId = ''i-4'', ImageId = ''ami-3''\<rparr>]
      else None)"

definition sampleAccount :: "(string \<Rightarrow> string \<Rightarrow> error + Image list) \<Rightarrow> aws" where
  "sampleAccount images =
     \<lparr>LoadDefaultConfig = None,
      GetCallerIdentity = Inr ''111122223333'',
      DescribeRegions = Inr [''us-east-1'', ''ap-east-1'', ''eu-west-1''],
      DescribeInstances = (\<lambda>region only.
        case instancesIn region of
          None \<Rightarrow> Inl (ApiError ''region not enabled'')
        | Some instances \<Rightarrow>
            (case only of
               None \<Rightarrow> Inr [\<lparr>Instances = instances\<rparr>]
             | Some instanceID \<Rightarrow>
                 Inr [\<lparr>Instances = filter (\<lambda>i. InstanceId i = instanceID) instances\<rparr>])),
      DescribeImages = images\<rparr>"

definition scenario :: aws where
  "scenario = sampleAccount (\<lambda>region amiID.
     if amiID = ''ami-1'' then Inr [amazonImage]
     else if amiID = ''ami-2'' then Inr [communityImage]
     else Inr [])"

definition throttled :: aws where
  "throttled = sampleAccount (\<lambda>region amiID. Inl (ApiError ''RequestLimitExceeded''))"

definition flaky :: aws where
  "flaky = sampleAccount (\<lambda>region amiID.
     if amiID = ''ami-1'' then Inl (ApiError ''RequestLimitExceeded'')
     else if amiID = ''ami-2'' then Inr [communityImage]
     else Inr [])"

definition doubled :: aws where
  "doubled = sampleAccount (\<lambda>region amiID. Inr [amazonImage, privateImage])"

definition thirdParty :: aws where
  "thirdParty = sampleAccount (\<lambda>region amiID. Inr [thirdPartyImage])"

definition verifiedPair :: aws where
  "verifiedPair = sampleAccount (\<lambda>region amiID. Inr [amazonImage])"

text \<open>
  Orders in which the export may visit the keys of the four maps.
\<close>

definition forwards :: iteration where
  "forwards = \<lparr>verifiedOrder = [''ami-1'', ''ami-2''], privateOrder = [], unknownOrder = [],
     unverifiedOrder = []\<rparr>"

definition backwards :: iteration where
  "backwards = \<lparr>verifiedOrder = [''ami-2'', ''ami-1''], privateOrder = [], unknownOrder = [],
     unverifiedOrder = []\<rparr>"

definition oneEach :: iteration where
  "oneEach = \<lparr>verifiedOrder = [''ami-1''], privateOrder = [], unknownOrder = [''ami-3''],
     unverifiedOrder = [''ami-2'']\<rparr>"

section \<open>The dedup ledger and the filed records\<close>

text \<open>
  Classifying one image writes only at the image's own id, leaves the ledger, the call record and
  the instance total alone, and what it leaves at that id depends only on what was there.
\<close>

lemma classifyImage_frame:
  "processedAMIs (classifyImage r a img st) = processedAMIs st"
  "describeImagesCalls (classifyImage r a img st) = describeImagesCalls st"
  "totalInstances (classifyImage r a img st) = totalInstances st"
  by (simp_all add: classifyImage_def Let_def)

lemma classifyImage_other:
  "b \<noteq> a \<Longrightarrow> entries (classifyImage r a img st) b = entries st b"
  by (simp add: classifyImage_def Let_def entries_def)

lemma classifyImage_cong:
  "entries st a = entries st' a \<Longrightarrow>
   entries (classifyImage r a img st) a = entries (classifyImage r a img st') a"
  by (simp add: classifyImage_def Let_def entries_def)

lemma fold_classifyImage_frame:
  "processedAMIs (fold (classifyImage r a) imgs st) = processedAMIs st"
  "describeImagesCalls (fold (classifyImage r a) imgs st) = describeImagesCalls st"
  "totalInstances (fold (classifyImage r a) imgs st) = totalInstances st"
proof -
  show "processedAMIs (fold (classifyImage r a) imgs st) = processedAMIs st"
    by (induction imgs arbitrary: st) (simp_all add: classifyImage_frame)
  show "describeImagesCalls (fold (classifyImage r a) imgs st) = describeImagesCalls st"
    by (induction imgs arbitrary: st) (simp_all add: classifyImage_frame)
  show "totalInstances (fold (classifyImage r a) imgs st) = totalInstances st"
    by (induction imgs arbitrary: st) (simp_all add: classifyImage_frame)
qed

lemma fold_classifyImage_other:
  "b \<noteq> a \<Longrightarrow> entries (fold (classifyImage r a) imgs st) b = entries st b"
  by (induction imgs arbitrary: st) (simp_all add: classifyImage_other)

lemma fold_classifyImage_cong:
  "entries st a = entries st' a \<Longrightarrow>
   entries (fold (classifyImage r a) imgs st) a = entries (fold (classifyImage r a) imgs st') a"
proof (induction imgs arbitrary: st st')
  case Nil
  then show ?case by simp
next
  case (Cons img imgs)
  from Cons.prems have "entries (classifyImage r a img st) a = entries (classifyImage r a img st') a"
    by (rule classifyImage_cong)
  then have "entries (fold (classifyImage r a) imgs (classifyImage r a img st)) a =
             entries (fold (classifyImage r a) imgs (classifyImage r a img st')) a"
    by (rule Cons.IH)
  then show ?case by simp
qed

lemma resolveAMI_frame:
  "processedAMIs (resolveAMI env r a st) = processedAMIs st"
  "describeImagesCalls (resolveAMI env r a st) = describeImagesCalls st"
  "totalInstances (resolveAMI env r a st) = totalInstances st"
  by (simp_all add: resolveAMI_def fold_classifyImage_frame split: sum.splits)

lemma resolveAMI_other:
  "b \<noteq> a \<Longrightarrow> entries (resolveAMI env r a st) b = entries st b"
  by (auto simp: resolveAMI_def fold_classifyImage_other split: sum.splits) (simp add: entries_def)

lemma resolveAMI_cong:
  assumes "entries st a = entries st' a"
  shows "entries (resolveAMI env r a st) a = entries (resolveAMI env r a st') a"
proof (cases "DescribeImages env r a")
  case (Inl e)
  then show ?thesis using assms by (simp add: resolveAMI_def)
next
  case (Inr imgs)
  show ?thesis
  proof (cases "imgs = []")
    case True
    then show ?thesis using Inr assms by (simp add: resolveAMI_def entries_def)
  next
    case False
    then show ?thesis using Inr fold_classifyImage_cong [OF assms] by (simp add: resolveAMI_def)
  qed
qed

lemma entries_initial: "entries initial a = (None, None, None, None)"
  by (simp add: entries_def initial_def)

lemma consistent_initial: "consistent env initial"
  by (simp add: consistent_def initial_def entries_def)

lemma processed_iff:
  "consistent env st \<Longrightarrow> seen st a \<longleftrightarrow> a \<in> snd ` set (describeImagesCalls st)"
  by (simp add: consistent_def seen_def)

lemma processAMI_seen:
  "consistent env st \<Longrightarrow> a \<in> snd ` set (describeImagesCalls st) \<Longrightarrow> processAMI env r a st = st"
  by (simp add: processAMI_def processed_iff)

lemma processAMI_calls:
  "consistent env st \<Longrightarrow>
   describeImagesCalls (processAMI env r a st) =
     (if a \<in> snd ` set (describeImagesCalls st) then describeImagesCalls st
      else describeImagesCalls st @ [(r, a)])"
  by (simp add: processAMI_def processed_iff resolveAMI_frame)

lemma processAMI_consistent:
  assumes "consistent env st"
  shows "consistent env (processAMI env r a st)"
proof (cases "a \<in> snd ` set (describeImagesCalls st)")
  case True
  then show ?thesis using assms by (simp add: processAMI_seen)
next
  case False
  define st1 where "st1 = st\<lparr>processedAMIs := (processedAMIs st)(a \<mapsto> True),
                 describeImagesCalls := describeImagesCalls st @ [(r, a)]\<rparr>"
  have eq: "processAMI env r a st = resolveAMI env r a st1"
    using False assms by (simp add: processAMI_def processed_iff st1_def)
  have e1: "entries st1 b = entries st b" for b by (simp add: st1_def entries_def)
  have none: "entries st a = (None, None, None, None)"
    using assms False by (simp add: consistent_def)
  have calls: "describeImagesCalls (resolveAMI env r a st1) = describeImagesCalls st @ [(r, a)]"
    by (simp add: resolveAMI_frame st1_def)
  have proc: "processedAMIs (resolveAMI env r a st1) = (processedAMIs st)(a \<mapsto> True)"
    by (simp add: resolveAMI_frame st1_def)
  have own: "entries (resolveAMI env r a st1) a = outcome env r a"
    unfolding outcome_def by (rule resolveAMI_cong) (simp add: e1 none entries_initial)
  have other: "b \<noteq> a \<Longrightarrow> entries (resolveAMI env r a st1) b = entries st b" for b
    by (simp add: resolveAMI_other e1)
  have "distinct (map snd (describeImagesCalls st @ [(r, a)]))"
    using assms False by (simp add: consistent_def)
  moreover have "\<forall>b. ((processedAMIs st)(a \<mapsto> True)) b =
      (if b \<in> snd ` set (describeImagesCalls st @ [(r, a)]) then Some True else None)"
    using assms by (simp add: consistent_def)
  moreover have "\<forall>b. b \<notin> snd ` set (describeImagesCalls st @ [(r, a)]) \<longrightarrow>
      entries (resolveAMI env r a st1) b = (None, None, None, None)"
    using assms other by (simp add: consistent_def)
  moreover have "\<forall>(r', b) \<in> set (describeImagesCalls st @ [(r, a)]).
      entries (resolveAMI env r a st1) b = outcome env r' b"
  proof (clarify)
    fix r' b assume mem: "(r', b) \<in> set (describeImagesCalls st @ [(r, a)])"
    show "entries (resolveAMI env r a st1) b = outcome env r' b"
    proof (cases "(r', b) = (r, a)")
      case True
      then show ?thesis using own by simp
    next
      case False
      with mem have old: "(r', b) \<in> set (describeImagesCalls st)" by auto
      then have "b \<in> snd ` set (describeImagesCalls st)" by force
      with \<open>a \<notin> snd ` set (describeImagesCalls st)\<close> have "b \<noteq> a" by auto
      then show ?thesis using other old assms by (auto simp: consistent_def)
    qed
  qed
  ultimately show ?thesis
    unfolding eq consistent_def calls proc by blast
qed

lemma fold_snoc_map: "fold (\<lambda>x acc. acc @ [f x]) xs acc = acc @ map f xs"
  by (induction xs arbitrary: acc) simp_all

lemma collectInstanceIDs_eq:
  "collectInstanceIDs reservations = map InstanceId (concat (map Instances reservations))"
proof -
  have nested: "fold (\<lambda>reservation. fold (\<lambda>inst ids. ids @ [InstanceId inst]) (Instances reservation)) rs acc
        = acc @ map InstanceId (concat (map Instances rs))" for rs :: "Reservation list" and acc
    by (induction rs arbitrary: acc) (simp_all add: fold_snoc_map)
  show ?thesis by (simp add: collectInstanceIDs_def nested)
qed

lemma fold_nested:
  "fold (\<lambda>reservation. fold (\<lambda>inst. f (ImageId inst)) (Instances reservation))
     (rs :: Reservation list) st
   = fold f (imageIDs rs) st"
proof (induction rs arbitrary: st)
  case Nil
  then show ?case by (simp add: imageIDs_def)
next
  case (Cons r rs)
  have inner: "fold (\<lambda>inst. f (ImageId inst)) xs s = fold f (map ImageId xs) s" for xs :: "Instance list" and s
    by (induction xs arbitrary: s) simp_all
  show ?case using Cons by (simp add: imageIDs_def inner)
qed

lemma scanInstance_eq:
  "scanInstance env region instanceID st = fold (processAMI env region) (visitedBy env region instanceID) st"
  by (simp add: scanInstance_def visitedBy_def fold_nested split: sum.splits)

lemma fold_scanInstance_eq:
  "fold (scanInstance env region) ids st
   = fold (processAMI env region) (concat (map (visitedBy env region) ids)) st"
  by (induction ids arbitrary: st) (simp_all add: scanInstance_eq)

lemma scanRegion_eq:
  "scanRegion env region st =
     fold (processAMI env region) (visited env region)
       (st\<lparr>totalInstances := totalInstances st + length (listed env region)\<rparr>)"
proof (cases "DescribeInstances env region None")
  case (Inl e)
  then show ?thesis by (simp add: scanRegion_def visited_def listed_def)
next
  case (Inr rs)
  define ids where "ids = collectInstanceIDs rs"
  define st1 where "st1 = st\<lparr>totalInstances := totalInstances st + length ids\<rparr>"
  have a: "scanRegion env region st =
           (if length ids = 0 then st1 else fold (scanInstance env region) ids st1)"
    unfolding scanRegion_def Inr ids_def st1_def by (simp only: sum.case Let_def)
  have b: "(if length ids = 0 then st1 else fold (scanInstance env region) ids st1)
           = fold (scanInstance env region) ids st1"
    by (cases ids) simp_all
  have c: "listed env region = ids"
    using Inr by (simp add: listed_def ids_def collectInstanceIDs_eq)
  have d: "visited env region = concat (map (visitedBy env region) ids)"
    by (simp only: visited_def c)
  have "scanRegion env region st = fold (scanInstance env region) ids st1"
    by (simp only: a b)
  also have "\<dots> = fold (processAMI env region) (concat (map (visitedBy env region) ids)) st1"
    by (rule fold_scanInstance_eq)
  finally show ?thesis by (simp only: d c st1_def)
qed

lemma fold_invariant:
  "(\<And>x s. P s \<Longrightarrow> P (f x s)) \<Longrightarrow> P s \<Longrightarrow> P (fold f xs s)"
  by (induction xs arbitrary: s) simp_all

lemma consistent_total:
  "consistent env (st\<lparr>totalInstances := n\<rparr>) = consistent env st"
  by (simp add: consistent_def entries_def)

lemma scanRegion_consistent: "consistent env st \<Longrightarrow> consistent env (scanRegion env region st)"
  unfolding scanRegion_eq
  by (rule fold_invariant) (simp_all add: processAMI_consistent consistent_total)

lemma scan_consistent: "consistent env (scan env regions)"
  unfolding scan_def
  by (rule fold_invariant) (simp_all add: scanRegion_consistent consistent_initial)

lemma outcome_error:
  "DescribeImages env r a = Inl e \<Longrightarrow> outcome env r a = (None, None, None, None)"
  by (simp add: outcome_def resolveAMI_def entries_initial)

lemma outcome_notfound:
  "DescribeImages env r a = Inr [] \<Longrightarrow>
   outcome env r a = (None, None, Some (unknownRecord r a), None)"
  by (simp add: outcome_def resolveAMI_def entries_def initial_def unknownRecord_def)

lemma outcome_single:
  "DescribeImages env r a = Inr [img] \<Longrightarrow>
   outcome env r a = entries (classifyImage r a img initial) a"
  by (simp add: outcome_def resolveAMI_def)

lemma holding_classifyImage_initial:
  "holding (entries (classifyImage r a img initial) a) \<le> 1"
  by (simp add: classifyImage_def Let_def entries_def initial_def holding_def)

lemma holding_classifiable:
  "classifiable img \<Longrightarrow> holding (entries (classifyImage r a img initial) a) = 1"
  by (auto simp: classifiable_def classifyImage_def Let_def entries_def initial_def holding_def)

lemma holding_outcome_le:
  assumes "singleImage env"
  shows "holding (outcome env r a) \<le> 1"
proof (cases "DescribeImages env r a")
  case (Inl e)
  then show ?thesis by (simp add: outcome_error holding_def)
next
  case (Inr imgs)
  with assms have "length imgs \<le> 1" by (auto simp: singleImage_def)
  then consider "imgs = []" | img where "imgs = [img]"
    by (cases imgs) auto
  then show ?thesis
  proof cases
    case 1
    then show ?thesis using Inr by (simp add: outcome_notfound holding_def)
  next
    case 2
    then show ?thesis
      using Inr holding_classifyImage_initial [of r a img] by (simp add: outcome_single)
  qed
qed

lemma consistent_entries:
  "consistent env st \<Longrightarrow> (r, a) \<in> set (describeImagesCalls st) \<Longrightarrow> entries st a = outcome env r a"
  by (auto simp: consistent_def)

lemma consistent_unseen:
  "consistent env st \<Longrightarrow> a \<notin> snd ` set (describeImagesCalls st) \<Longrightarrow>
   entries st a = (None, None, None, None)"
  by (simp add: consistent_def)

lemma consistent_dom_processed:
  "consistent env st \<Longrightarrow> dom (processedAMIs st) = snd ` set (describeImagesCalls st)"
  by (auto simp: consistent_def dom_def)

lemma consistent_holding_le:
  assumes "consistent env st" and "singleImage env"
  shows "bucketsHolding st a \<le> 1"
proof (cases "a \<in> snd ` set (describeImagesCalls st)")
  case True
  then obtain r where "(r, a) \<in> set (describeImagesCalls st)" by force
  then have "entries st a = outcome env r a" using assms(1) by (rule consistent_entries[rotated])
  then show ?thesis using holding_outcome_le [OF assms(2)] by (simp add: bucketsHolding_def)
next
  case False
  then show ?thesis using assms(1) by (simp add: bucketsHolding_def consistent_unseen holding_def)
qed

lemma reachable_consistent: "reachable env st \<Longrightarrow> consistent env st"
  by (induction rule: reachable.induct)
     (simp_all add: consistent_initial consistent_total processAMI_consistent)

lemma fold_processAMI_reachable:
  "reachable env st \<Longrightarrow> reachable env (fold (processAMI env region) amiIDs st)"
  by (rule fold_invariant) (simp_all add: reachable.processed)

lemma scanRegion_reachable: "reachable env st \<Longrightarrow> reachable env (scanRegion env region st)"
  unfolding scanRegion_eq by (intro fold_processAMI_reachable reachable.counted)

lemma scan_reachable: "reachable env (scan env regions)"
  unfolding scan_def
  by (rule fold_invariant) (simp_all add: scanRegion_reachable reachable.start)

lemmas run_defs = scan_def scanRegion_def collectInstanceIDs_def scanInstance_def processAMI_def
  seen_def
  resolveAMI_def classifyImage_def initial_def Let_def ToString_def sampleAccount_def instancesIn_def
  amazonImage_def communityImage_def privateImage_def

subsection \<open>Consequences for the final state\<close>

lemma bucketsHolding_resolved:
  assumes "consistent env st" and "(r, a) \<in> set (describeImagesCalls st)"
  shows "bucketsHolding st a = holding (outcome env r a)"
  using consistent_entries [OF assms] by (simp add: bucketsHolding_def)

lemma seen_resolved:
  assumes "consistent env st" and "seen st a"
  shows "\<exists>r. (r, a) \<in> set (describeImagesCalls st)"
  using assms by (force simp: processed_iff)

lemma main_summary:
  "LoadDefaultConfig env = None \<Longrightarrow> GetCallerIdentity env = Inr account \<Longrightarrow>
   DescribeRegions env = Inr regions \<Longrightarrow> main env [] = Inr (summarise (scan env regions))"
  by (simp add: main_def)

lemma singleImage_scenario: "singleImage scenario"
  by (simp add: singleImage_def scenario_def sampleAccount_def)

subsection \<open>Skipped regions and the order of exported rows\<close>

lemma scanRegion_failed:
  "DescribeInstances env region None = Inl err \<Longrightarrow> scanRegion env region st = st"
  by (simp add: scanRegion_def)

lemma iterates_mset: "iterates m ks \<Longrightarrow> iterates m ks' \<Longrightarrow> mset ks = mset ks'"
  by (simp add: iterates_def set_eq_iff_mset_eq_distinct [symmetric])

lemma mset_rangeMap: "mset ks = mset ks' \<Longrightarrow> mset (rangeMap ks m) = mset (rangeMap ks' m)"
proof -
  assume eq: "mset ks = mset ks'"
  have "mset (rangeMap xs m) = image_mset (\<lambda>k. the (m k)) (filter_mset (\<lambda>k. m k \<noteq> None) (mset xs))"
    for xs
    by (simp add: rangeMap_def map_filter_def comp_def)
  then show ?thesis using eq by simp
qed

lemma mset_rows:
  "iterates m ks \<Longrightarrow> iterates m ks' \<Longrightarrow>
   mset (map row (rangeMap ks m)) = mset (map row (rangeMap ks' m))"
  using mset_rangeMap [OF iterates_mset, of m ks ks' m] by simp

lemma iterates_unique:
  assumes "iterates m ks" and "iterates m ks'" and "card (dom m) \<le> 1"
  shows "ks = ks'"
proof -
  have l: "length ks \<le> 1" "length ks' \<le> 1"
    using assms by (auto simp: iterates_def dest: distinct_card)
  have s: "set ks = set ks'" using assms by (simp add: iterates_def)
  show ?thesis
  proof (cases ks)
    case Nil
    then show ?thesis using s by simp
  next
    case (Cons k rest)
    then have "ks = [k]" using l(1) by simp
    moreover from this s l(2) have "ks' = [k]" by (cases ks') auto
    ultimately show ?thesis by simp
  qed
qed

subsection \<open>Counting the maps\<close>

lemma card_dom_sum:
  assumes "finite C" and "dom m \<subseteq> C"
  shows "card (dom m) = (\<Sum>a\<in>C. if m a = None then 0 else 1)"
proof -
  have "dom m = {a \<in> C. m a \<noteq> None}" using assms(2) by auto
  then have "card (dom m) = (\<Sum>a\<in>{a \<in> C. m a \<noteq> None}. 1)" by simp
  also have "\<dots> = (\<Sum>a\<in>C. if m a \<noteq> None then 1 else 0)"
    using assms(1) by (rule sum.inter_filter)
  also have "\<dots> = (\<Sum>a\<in>C. if m a = None then 0 else 1)"
    by (rule sum.cong) auto
  finally show ?thesis .
qed

lemma consistent_doms:
  assumes "consistent env st"
  shows "dom (verifiedAMIs st) \<subseteq> snd ` set (describeImagesCalls st)"
    and "dom (privateAMIs st) \<subseteq> snd ` set (describeImagesCalls st)"
    and "dom (unknownAMIs st) \<subseteq> snd ` set (describeImagesCalls st)"
    and "dom (unverifiedAMIs st) \<subseteq> snd ` set (describeImagesCalls st)"
proof -
  have n: "verifiedAMIs st a = None \<and> privateAMIs st a = None \<and> unknownAMIs st a = None
           \<and> unverifiedAMIs st a = None" if "a \<notin> snd ` set (describeImagesCalls st)" for a
    using consistent_unseen [OF assms that] by (simp add: entries_def)
  show "dom (verifiedAMIs st) \<subseteq> snd ` set (describeImagesCalls st)"
    using n by (meson domIff subsetI)
  show "dom (privateAMIs st) \<subseteq> snd ` set (describeImagesCalls st)"
    using n by (meson domIff subsetI)
  show "dom (unknownAMIs st) \<subseteq> snd ` set (describeImagesCalls st)"
    using n by (meson domIff subsetI)
  show "dom (unverifiedAMIs st) \<subseteq> snd ` set (describeImagesCalls st)"
    using n by (meson domIff subsetI)
qed

lemma consistent_card_sum:
  assumes "consistent env st"
  shows "card (dom (privateAMIs st)) + card (dom (verifiedAMIs st))
         + card (dom (unknownAMIs st)) + card (dom (unverifiedAMIs st))
         = (\<Sum>a\<in>snd ` set (describeImagesCalls st). bucketsHolding st a)"
proof -
  have f: "finite (snd ` set (describeImagesCalls st))" by simp
  show ?thesis
    unfolding card_dom_sum [OF f consistent_doms(1) [OF assms]]
      card_dom_sum [OF f consistent_doms(2) [OF assms]]
      card_dom_sum [OF f consistent_doms(3) [OF assms]]
      card_dom_sum [OF f consistent_doms(4) [OF assms]]
    by (simp add: bucketsHolding_def holding_def entries_def sum.distrib)
qed

lemma consistent_card_processed:
  assumes "consistent env st"
  shows "card (dom (processedAMIs st)) = length (describeImagesCalls st)"
proof -
  have "distinct (map snd (describeImagesCalls st))" using assms by (simp add: consistent_def)
  then have "card (set (map snd (describeImagesCalls st))) = length (map snd (describeImagesCalls st))"
    by (rule distinct_card)
  then show ?thesis by (simp add: consistent_dom_processed [OF assms])
qed

lemma processAMI_total: "totalInstances (processAMI env r a st) = totalInstances st"
  by (simp add: processAMI_def resolveAMI_frame)

lemma processAMI_calls_le:
  "length (describeImagesCalls (processAMI env r a st)) \<le> Suc (length (describeImagesCalls st))"
  by (simp add: processAMI_def resolveAMI_frame)

lemma fold_processAMI_total:
  "totalInstances (fold (processAMI env r) ids st) = totalInstances st"
  by (induction ids arbitrary: st) (simp_all add: processAMI_total)

lemma fold_processAMI_calls_le:
  "length (describeImagesCalls (fold (processAMI env r) ids st))
   \<le> length (describeImagesCalls st) + length ids"
proof (induction ids arbitrary: st)
  case Nil
  then show ?case by simp
next
  case (Cons a ids)
  have "length (describeImagesCalls (fold (processAMI env r) ids (processAMI env r a st)))
        \<le> length (describeImagesCalls (processAMI env r a st)) + length ids"
    by (rule Cons.IH)
  also have "\<dots> \<le> Suc (length (describeImagesCalls st)) + length ids"
    using processAMI_calls_le [of env r a st] by simp
  finally show ?case by simp
qed

lemma length_concat_le:
  "(\<And>x. length (f x) \<le> 1) \<Longrightarrow> length (concat (map f xs)) \<le> length xs"
proof (induction xs)
  case Nil
  then show ?case by simp
next
  case (Cons x xs)
  then have "length (f x) \<le> 1" and "length (concat (map f xs)) \<le> length xs" by simp_all
  then show ?case by simp
qed

lemma visited_le_listed:
  assumes "singleInstance env"
  shows "length (visited env region) \<le> length (listed env region)"
proof -
  have "length (visitedBy env region instanceID) \<le> 1" for instanceID
    using assms by (auto simp: visitedBy_def singleInstance_def split: sum.splits)
  then show ?thesis unfolding visited_def by (rule length_concat_le)
qed

lemma scanRegion_calls_le_total:
  assumes "singleInstance env"
    and "length (describeImagesCalls st) \<le> totalInstances st"
  shows "length (describeImagesCalls (scanRegion env region st))
         \<le> totalInstances (scanRegion env region st)"
proof -
  let ?st1 = "st\<lparr>totalInstances := totalInstances st + length (listed env region)\<rparr>"
  have "length (describeImagesCalls (scanRegion env region st))
        \<le> length (describeImagesCalls ?st1) + length (visited env region)"
    unfolding scanRegion_eq by (rule fold_processAMI_calls_le)
  also have "\<dots> \<le> totalInstances st + length (listed env region)"
    using assms(2) visited_le_listed [OF assms(1), of region] by simp
  also have "\<dots> = totalInstances (scanRegion env region st)"
    unfolding scanRegion_eq by (simp add: fold_processAMI_total)
  finally show ?thesis .
qed

lemma scan_calls_le_total:
  assumes "singleInstance env"
  shows "length (describeImagesCalls (scan env regions)) \<le> totalInstances (scan env regions)"
  unfolding scan_def
proof (rule fold_invariant)
  show "length (describeImagesCalls initial) \<le> totalInstances initial"
    by (simp add: initial_def)
qed (rule scanRegion_calls_le_total [OF assms])

lemma holding_outcome_classifiable:
  assumes "singleImage env"
    and "DescribeImages env r a = Inr images" and "\<forall>img\<in>set images. classifiable img"
  shows "holding (outcome env r a) = 1"
proof -
  from assms(1,2) have "length images \<le> 1" by (auto simp: singleImage_def)
  then consider "images = []" | img where "images = [img]"
    by (cases images) auto
  then show ?thesis
  proof cases
    case 1
    then show ?thesis using assms(2) by (simp add: outcome_notfound holding_def)
  next
    case 2
    then show ?thesis
      using assms(2,3) holding_classifiable [of img r a] by (simp add: outcome_single)
  qed
qed

lemma singleInstance_sample: "singleInstance (sampleAccount images)"
  by (auto simp: singleInstance_def sampleAccount_def instancesIn_def imageIDs_def
      split: if_splits)

subsection \<open>The region that resolves an image id\<close>

lemma classifyImage_records:
  assumes "\<forall>ami \<in> records st a. ID ami = a \<and> Region ami = r"
  shows "\<forall>ami \<in> records (classifyImage r a img st) a. ID ami = a \<and> Region ami = r"
  using assms by (auto simp: records_def held_def entries_def classifyImage_def Let_def)

lemma fold_classifyImage_records:
  "\<forall>ami \<in> records st a. ID ami = a \<and> Region ami = r \<Longrightarrow>
   \<forall>ami \<in> records (fold (classifyImage r a) imgs st) a. ID ami = a \<and> Region ami = r"
  by (rule fold_invariant) (rule classifyImage_records)

lemma held_outcome:
  assumes "ami \<in> held (outcome env r a)"
  shows "ID ami = a \<and> Region ami = r"
proof -
  have init: "\<forall>ami \<in> records initial a. ID ami = a \<and> Region ami = r"
    by (simp add: records_def held_def entries_initial)
  have "\<forall>ami \<in> records (resolveAMI env r a initial) a. ID ami = a \<and> Region ami = r"
  proof (cases "DescribeImages env r a")
    case (Inl e)
    then show ?thesis using init by (simp add: resolveAMI_def)
  next
    case (Inr imgs)
    show ?thesis
    proof (cases "imgs = []")
      case True
      then show ?thesis using Inr
        by (simp add: resolveAMI_def records_def held_def entries_def initial_def)
    next
      case False
      then show ?thesis using Inr fold_classifyImage_records [OF init, of imgs]
        by (simp add: resolveAMI_def)
    qed
  qed
  then show ?thesis using assms by (simp add: records_def outcome_def)
qed

lemma fold_processAMI_calls:
  assumes "consistent env st"
  shows "\<exists>new. describeImagesCalls (fold (processAMI env x) ids st) = describeImagesCalls st @ new
           \<and> set new \<subseteq> {x} \<times> set ids
           \<and> snd ` set new \<inter> snd ` set (describeImagesCalls st) = {}
           \<and> set ids \<subseteq> snd ` set (describeImagesCalls st @ new)"
  using assms
proof (induction ids arbitrary: st)
  case Nil
  then show ?case by simp
next
  case (Cons a ids)
  define st' where "st' = processAMI env x a st"
  have c': "consistent env st'" unfolding st'_def using Cons.prems by (rule processAMI_consistent)
  define n0 where "n0 = (if a \<in> snd ` set (describeImagesCalls st) then [] else [(x, a)])"
  have calls': "describeImagesCalls st' = describeImagesCalls st @ n0"
    unfolding st'_def n0_def by (simp add: processAMI_calls [OF Cons.prems])
  from Cons.IH [OF c'] obtain new
    where eq: "describeImagesCalls (fold (processAMI env x) ids st') = describeImagesCalls st' @ new"
      and sub: "set new \<subseteq> {x} \<times> set ids"
      and dis: "snd ` set new \<inter> snd ` set (describeImagesCalls st') = {}"
      and cov: "set ids \<subseteq> snd ` set (describeImagesCalls st' @ new)"
    by blast
  have 1: "describeImagesCalls (fold (processAMI env x) (a # ids) st)
           = describeImagesCalls st @ (n0 @ new)"
    using eq calls' by (simp add: st'_def)
  have 2: "set (n0 @ new) \<subseteq> {x} \<times> set (a # ids)"
    using sub by (auto simp: n0_def)
  have 3: "snd ` set (n0 @ new) \<inter> snd ` set (describeImagesCalls st) = {}"
    using dis calls' by (auto simp: n0_def split: if_splits)
  have "a \<in> snd ` set (describeImagesCalls st @ n0)"
    by (auto simp: n0_def)
  then have 4: "set (a # ids) \<subseteq> snd ` set (describeImagesCalls st @ (n0 @ new))"
    using cov calls' by auto
  from 1 2 3 4 show ?case by blast
qed

lemma scanRegion_calls:
  assumes "consistent env st"
  shows "\<exists>new. describeImagesCalls (scanRegion env x st) = describeImagesCalls st @ new
           \<and> set new \<subseteq> {x} \<times> set (visited env x)
           \<and> snd ` set new \<inter> snd ` set (describeImagesCalls st) = {}
           \<and> set (visited env x) \<subseteq> snd ` set (describeImagesCalls st @ new)"
proof -
  let ?st1 = "st\<lparr>totalInstances := totalInstances st + length (listed env x)\<rparr>"
  have "consistent env ?st1" using assms by (simp add: consistent_total)
  from fold_processAMI_calls [OF this, of x "visited env x"]
  show ?thesis unfolding scanRegion_eq by simp
qed

lemma find_snoc:
  "find P (xs @ [x]) = (case find P xs of None \<Rightarrow> (if P x then Some x else None) | Some y \<Rightarrow> Some y)"
  by (induction xs) simp_all

lemma scan_first_observer:
  "(\<forall>(r, a) \<in> set (describeImagesCalls (scan env regions)). find (observes env a) regions = Some r)
   \<and> (\<forall>r \<in> set regions. set (visited env r) \<subseteq> snd ` set (describeImagesCalls (scan env regions)))"
proof (induction regions rule: rev_induct)
  case Nil
  then show ?case by (simp add: scan_def initial_def)
next
  case (snoc x regions)
  define st where "st = scan env regions"
  have step: "scan env (regions @ [x]) = scanRegion env x st"
    by (simp add: scan_def st_def)
  have c: "consistent env st" unfolding st_def by (rule scan_consistent)
  from scanRegion_calls [OF c, of x] obtain new
    where eq: "describeImagesCalls (scanRegion env x st) = describeImagesCalls st @ new"
      and sub: "set new \<subseteq> {x} \<times> set (visited env x)"
      and dis: "snd ` set new \<inter> snd ` set (describeImagesCalls st) = {}"
      and cov: "set (visited env x) \<subseteq> snd ` set (describeImagesCalls st @ new)"
    by blast
  have old: "\<forall>(r, a) \<in> set (describeImagesCalls st). find (observes env a) regions = Some r"
    and seen_all: "\<forall>r \<in> set regions. set (visited env r) \<subseteq> snd ` set (describeImagesCalls st)"
    using snoc.IH unfolding st_def by simp_all
  have "find (observes env a) (regions @ [x]) = Some r"
    if mem: "(r, a) \<in> set (describeImagesCalls st @ new)" for r a
  proof (cases "(r, a) \<in> set (describeImagesCalls st)")
    case True
    with old have "find (observes env a) regions = Some r" by blast
    then show ?thesis by (simp add: find_snoc)
  next
    case False
    with mem have n: "(r, a) \<in> set new" by simp
    with sub have rx: "r = x" and vis: "a \<in> set (visited env x)" by auto
    from n have "a \<in> snd ` set new" by force
    with dis have "a \<notin> snd ` set (describeImagesCalls st)" by blast
    with seen_all have "\<forall>r' \<in> set regions. a \<notin> set (visited env r')" by blast
    then have "find (observes env a) regions = None"
      by (simp add: find_None_iff observes_def)
    then show ?thesis using rx vis by (simp add: find_snoc observes_def)
  qed
  moreover have "\<forall>r \<in> set (regions @ [x]).
      set (visited env r) \<subseteq> snd ` set (describeImagesCalls st @ new)"
    using seen_all cov by auto
  ultimately show ?case unfolding step eq by blast
qed

text \<open>
  Every image id that a region of the list observes is requested, in the first region that
  observes it, and holds at the end what that request filed.
\<close>

lemma scan_observed_resolved:
  assumes "r \<in> set regions" and "observes env a r"
  shows "seen (scan env regions) a
         \<and> (\<exists>r'. (r', a) \<in> set (describeImagesCalls (scan env regions))
                \<and> find (observes env a) regions = Some r'
                \<and> entries (scan env regions) a = outcome env r' a)"
proof -
  have c: "consistent env (scan env regions)" by (rule scan_consistent)
  have "set (visited env r) \<subseteq> snd ` set (describeImagesCalls (scan env regions))"
    using scan_first_observer [of env regions] assms(1) by blast
  with assms(2) have in_calls: "a \<in> snd ` set (describeImagesCalls (scan env regions))"
    by (auto simp: observes_def)
  then obtain r' where mem: "(r', a) \<in> set (describeImagesCalls (scan env regions))"
    by force
  have "find (observes env a) regions = Some r'"
    using scan_first_observer [of env regions] mem by blast
  moreover have "entries (scan env regions) a = outcome env r' a"
    using c mem by (rule consistent_entries)
  moreover have "seen (scan env regions) a"
    using c in_calls by (simp add: processed_iff)
  ultimately show ?thesis using mem by blast
qed

text \<open>
  The condition \<open>singleImage\<close> is needed in the model: an answer with two images would file
  one id twice.
\<close>

lemma two_images_filed_twice:
  "verifiedAMIs (scan doubled [''us-east-1'']) ''ami-1'' \<noteq> None
   \<and> privateAMIs (scan doubled [''us-east-1'']) ''ami-1'' \<noteq> None"
  by (simp add: run_defs doubled_def)

section \<open>The claims\<close>

text \<open>
  C1. Claim: a public image whose owner alias is absent or is any value other than \<open>amazon\<close> and
  \<open>self\<close> is filed as Unverified. The code files a record only when the alias is empty; for a
  public image with the third-party alias \<open>12345\<close> the chain of lines 187-199 reaches no
  assignment, so classifying it changes nothing. In a run over an account whose images carry that
  alias, the image id is marked as processed and no map, the unverified one included, holds it.
\<close>

theorem C1_third_party_alias_not_filed:
  "classifyImage region amiID
     \<lparr>ImagePublic = True, ImageOwnerAlias = Some ''12345'', ImageOwnerId = ownerId,
      ImageName = name, ImageDescription = description\<rparr> st = st
   \<and> DescribeImages thirdParty ''us-east-1'' ''ami-1'' = Inr [thirdPartyImage]
   \<and> seen (scan thirdParty [''us-east-1'']) ''ami-1''
   \<and> unverifiedAMIs (scan thirdParty [''us-east-1'']) ''ami-1'' = None
   \<and> bucketsHolding (scan thirdParty [''us-east-1'']) ''ami-1'' = 0"
  by (simp add: bucketsHolding_def holding_def entries_def run_defs thirdParty_def
      thirdPartyImage_def)

text \<open>
  C2. Claim: after the run every processed image id is in exactly one of the four category maps.
  This fails when the \<open>DescribeImages\<close> request for the id returns an error: lines 149-154
  leave the id marked and unfiled (the counterexample below). Amended: every processed id was
  resolved by a request of the run; when that request failed the id is in no map; when it
  returned no image, or exactly one image that is private or is public with an owner alias that
  is empty, \<open>amazon\<close> or \<open>self\<close>, the id is in exactly one map.
\<close>

theorem C2_processed_filed_once_when_resolved:
  assumes "seen (scan env regions) amiID"
  shows "\<exists>region. (region, amiID) \<in> set (describeImagesCalls (scan env regions))
     \<and> (\<forall>err. DescribeImages env region amiID = Inl err
            \<longrightarrow> bucketsHolding (scan env regions) amiID = 0)
     \<and> (DescribeImages env region amiID = Inr []
            \<longrightarrow> bucketsHolding (scan env regions) amiID = 1)
     \<and> (\<forall>img. DescribeImages env region amiID = Inr [img] \<and> classifiable img
            \<longrightarrow> bucketsHolding (scan env regions) amiID = 1)"
proof -
  have c: "consistent env (scan env regions)" by (rule scan_consistent)
  from seen_resolved [OF c assms] obtain region
    where mem: "(region, amiID) \<in> set (describeImagesCalls (scan env regions))" ..
  have h: "bucketsHolding (scan env regions) amiID = holding (outcome env region amiID)"
    using c mem by (rule bucketsHolding_resolved)
  have "\<forall>err. DescribeImages env region amiID = Inl err
            \<longrightarrow> bucketsHolding (scan env regions) amiID = 0"
    by (simp add: h outcome_error holding_def)
  moreover have "DescribeImages env region amiID = Inr []
            \<longrightarrow> bucketsHolding (scan env regions) amiID = 1"
    by (simp add: h outcome_notfound holding_def)
  moreover have "\<forall>img. DescribeImages env region amiID = Inr [img] \<and> classifiable img
            \<longrightarrow> bucketsHolding (scan env regions) amiID = 1"
    by (simp add: h outcome_single holding_classifiable)
  ultimately show ?thesis using mem by blast
qed

theorem C2_witness:
  "seen (scan scenario [''us-east-1'', ''ap-east-1'', ''eu-west-1'']) ''ami-2''
   \<and> classifiable communityImage
   \<and> bucketsHolding (scan scenario [''us-east-1'', ''ap-east-1'', ''eu-west-1'']) ''ami-2'' = 1"
proof -
  have s: "seen (scan scenario [''us-east-1'', ''ap-east-1'', ''eu-west-1'']) ''ami-2''"
    by (simp add: run_defs scenario_def)
  have k: "classifiable communityImage"
    by (simp add: classifiable_def communityImage_def ToString_def)
  have d: "DescribeImages scenario region ''ami-2'' = Inr [communityImage]" for region
    by (simp add: scenario_def sampleAccount_def)
  from C2_processed_filed_once_when_resolved [OF s] d k
  have "bucketsHolding (scan scenario [''us-east-1'', ''ap-east-1'', ''eu-west-1'']) ''ami-2'' = 1"
    by blast
  with s k show ?thesis by simp
qed

theorem C2_counterexample:
  "seen (scan throttled [''us-east-1'']) ''ami-1''
   \<and> bucketsHolding (scan throttled [''us-east-1'']) ''ami-1'' = 0"
  by (simp add: bucketsHolding_def holding_def entries_def run_defs throttled_def)

text \<open>
  C3. Claim: in the summary the four category counts add up to the number of distinct processed
  image ids, which is at most the instance total. The first part fails when a request for an
  image fails: the id is counted as processed and filed nowhere
  (the counterexample below). Amended, for an account whose answers to the single-id requests
  carry at most one instance and at most one image: the four counts add up to at most the number
  of processed ids, which is at most the instance total; and they add up to exactly that number
  when every request for an image succeeded and returned only images that are private or are
  public with an owner alias that is empty, \<open>amazon\<close> or \<open>self\<close>.
\<close>

theorem C3_counts_reconcile_when_resolved:
  assumes "singleImage env" and "singleInstance env"
  shows "PrivateAMIs (summarise (scan env regions)) + VerifiedAMIs (summarise (scan env regions))
           + UnknownAMIs (summarise (scan env regions))
           + UnverifiedAMIs (summarise (scan env regions))
         \<le> TotalAMIs (summarise (scan env regions))
       \<and> TotalAMIs (summarise (scan env regions)) \<le> TotalInstances (summarise (scan env regions))
       \<and> ((\<forall>(region, amiID) \<in> set (describeImagesCalls (scan env regions)).
              \<exists>images. DescribeImages env region amiID = Inr images
                       \<and> (\<forall>img \<in> set images. classifiable img))
           \<longrightarrow> PrivateAMIs (summarise (scan env regions))
                 + VerifiedAMIs (summarise (scan env regions))
                 + UnknownAMIs (summarise (scan env regions))
                 + UnverifiedAMIs (summarise (scan env regions))
               = TotalAMIs (summarise (scan env regions)))"
proof -
  define st where "st = scan env regions"
  define C where "C = snd ` set (describeImagesCalls st)"
  have c: "consistent env st" unfolding st_def by (rule scan_consistent)
  have total: "card (dom (processedAMIs st)) = length (describeImagesCalls st)"
    using c by (rule consistent_card_processed)
  have cardC: "card C = length (describeImagesCalls st)"
    using total consistent_dom_processed [OF c] by (simp add: C_def)
  have sum: "card (dom (privateAMIs st)) + card (dom (verifiedAMIs st))
         + card (dom (unknownAMIs st)) + card (dom (unverifiedAMIs st))
         = (\<Sum>a\<in>C. bucketsHolding st a)"
    unfolding C_def using c by (rule consistent_card_sum)
  have "(\<Sum>a\<in>C. bucketsHolding st a) \<le> (\<Sum>a\<in>C. 1)"
    by (rule sum_mono) (rule consistent_holding_le [OF c assms(1)])
  then have le: "(\<Sum>a\<in>C. bucketsHolding st a) \<le> length (describeImagesCalls st)"
    using cardC by simp
  have bound: "length (describeImagesCalls st) \<le> totalInstances st"
    unfolding st_def using assms(2) by (rule scan_calls_le_total)
  have eq: "(\<Sum>a\<in>C. bucketsHolding st a) = length (describeImagesCalls st)"
    if ok: "\<forall>(region, amiID) \<in> set (describeImagesCalls st).
              \<exists>images. DescribeImages env region amiID = Inr images
                       \<and> (\<forall>img \<in> set images. classifiable img)"
  proof -
    have "bucketsHolding st a = 1" if "a \<in> C" for a
    proof -
      from that obtain r where mem: "(r, a) \<in> set (describeImagesCalls st)"
        unfolding C_def by force
      with ok obtain images where "DescribeImages env r a = Inr images"
        and "\<forall>img \<in> set images. classifiable img" by blast
      then have "holding (outcome env r a) = 1"
        using assms(1) by (intro holding_outcome_classifiable)
      then show ?thesis using bucketsHolding_resolved [OF c mem] by simp
    qed
    then have "(\<Sum>a\<in>C. bucketsHolding st a) = (\<Sum>a\<in>C. 1)" by (intro sum.cong) simp_all
    then show ?thesis using cardC by simp
  qed
  show ?thesis
    unfolding st_def [symmetric] using sum le bound total eq
    by (simp add: summarise_def)
qed

theorem C3_witness:
  "singleImage scenario \<and> singleInstance scenario
   \<and> describeImagesCalls (scan scenario [''us-east-1'', ''eu-west-1''])
       = [(''us-east-1'', ''ami-1''), (''us-east-1'', ''ami-2''), (''eu-west-1'', ''ami-3'')]
   \<and> DescribeImages scenario ''us-east-1'' ''ami-1'' = Inr [amazonImage]
   \<and> DescribeImages scenario ''us-east-1'' ''ami-2'' = Inr [communityImage]
   \<and> DescribeImages scenario ''eu-west-1'' ''ami-3'' = Inr []
   \<and> classifiable amazonImage \<and> classifiable communityImage
   \<and> PrivateAMIs (summarise (scan scenario [''us-east-1'', ''eu-west-1'']))
       + VerifiedAMIs (summarise (scan scenario [''us-east-1'', ''eu-west-1'']))
       + UnknownAMIs (summarise (scan scenario [''us-east-1'', ''eu-west-1'']))
       + UnverifiedAMIs (summarise (scan scenario [''us-east-1'', ''eu-west-1'']))
     = TotalAMIs (summarise (scan scenario [''us-east-1'', ''eu-west-1'']))
   \<and> TotalAMIs (summarise (scan scenario [''us-east-1'', ''eu-west-1'']))
     \<le> TotalInstances (summarise (scan scenario [''us-east-1'', ''eu-west-1'']))"
proof -
  have i: "singleInstance scenario" unfolding scenario_def by (rule singleInstance_sample)
  have calls: "describeImagesCalls (scan scenario [''us-east-1'', ''eu-west-1''])
       = [(''us-east-1'', ''ami-1''), (''us-east-1'', ''ami-2''), (''eu-west-1'', ''ami-3'')]"
    by (simp add: run_defs scenario_def)
  have answers: "DescribeImages scenario ''us-east-1'' ''ami-1'' = Inr [amazonImage]
      \<and> DescribeImages scenario ''us-east-1'' ''ami-2'' = Inr [communityImage]
      \<and> DescribeImages scenario ''eu-west-1'' ''ami-3'' = Inr []"
    by (simp add: scenario_def sampleAccount_def)
  have ok: "classifiable amazonImage \<and> classifiable communityImage"
    by (simp add: classifiable_def amazonImage_def communityImage_def ToString_def)
  have k: "\<forall>(region, amiID) \<in> set (describeImagesCalls (scan scenario [''us-east-1'', ''eu-west-1''])).
              \<exists>images. DescribeImages scenario region amiID = Inr images
                       \<and> (\<forall>img \<in> set images. classifiable img)"
    unfolding calls using answers ok by simp
  show ?thesis
    using singleImage_scenario i calls answers ok k
      C3_counts_reconcile_when_resolved [OF singleImage_scenario i, of "[''us-east-1'', ''eu-west-1'']"]
    by blast
qed

theorem C3_counterexample:
  "main throttled ''us-east-1'' = Inr \<lparr>TotalInstances = 2, TotalAMIs = 2, PrivateAMIs = 0,
     VerifiedAMIs = 0, UnknownAMIs = 0, UnverifiedAMIs = 0\<rparr>
   \<and> PrivateAMIs (summarise (scan throttled [''us-east-1'']))
       + VerifiedAMIs (summarise (scan throttled [''us-east-1'']))
       + UnknownAMIs (summarise (scan throttled [''us-east-1'']))
       + UnverifiedAMIs (summarise (scan throttled [''us-east-1'']))
     \<noteq> TotalAMIs (summarise (scan throttled [''us-east-1'']))"
  by (simp add: main_def summarise_def run_defs throttled_def)

text \<open>
  C4. Claim: the header is the eight-column line, every row carries one of the four status
  literals, and an Unknown row has eight columns, the last five being \<open>Unknown\<close>. The row written
  for a record of the unknown map (line 258) has the status and only four more fields: seven
  columns under a header of eight, here for the not-found image of the sample run.
\<close>

theorem C4_unknown_row_seven_columns:
  "unknownRows oneEach (scan scenario [''us-east-1'', ''eu-west-1''])
     = [''ami-3|eu-west-1|Unknown|Unknown|Unknown|Unknown|Unknown\<newline>'']
   \<and> columns (unknownRow (unknownRecord ''eu-west-1'' ''ami-3'')) = 7
   \<and> columns header = 8
   \<and> columns (fullRow ''Verified'' (unknownRecord ''eu-west-1'' ''ami-3'')) = 8"
  by (simp add: unknownRows_def rangeMap_def map_filter_def oneEach_def run_defs scenario_def
      unknownRow_def unknownRecord_def fullRow_def columns_def header_def)

text \<open>
  C5. In a run over any region list, the \<open>DescribeImages\<close> requests issued name pairwise
  distinct image ids, so each id is resolved, and what is returned for it classified, at most
  once, however many instances and regions report it. The region of the request for an id is
  the first region of the list whose instances report the id; what the maps hold for the id at
  the end of the run is what classifying the answer of that one request files, and every such
  record carries the id and that region. An id never requested has no record.
\<close>

theorem C5_resolved_once_by_first_region:
  "distinct (map snd (describeImagesCalls (scan env regions)))
   \<and> (\<forall>(region, amiID) \<in> set (describeImagesCalls (scan env regions)).
        find (observes env amiID) regions = Some region
        \<and> entries (scan env regions) amiID = outcome env region amiID
        \<and> (\<forall>ami \<in> records (scan env regions) amiID. ID ami = amiID \<and> Region ami = region))
   \<and> (\<forall>amiID. amiID \<notin> snd ` set (describeImagesCalls (scan env regions))
        \<longrightarrow> records (scan env regions) amiID = {})"
proof -
  have c: "consistent env (scan env regions)" by (rule scan_consistent)
  have "distinct (map snd (describeImagesCalls (scan env regions)))"
    using c by (simp add: consistent_def)
  moreover have "find (observes env amiID) regions = Some region
        \<and> entries (scan env regions) amiID = outcome env region amiID
        \<and> (\<forall>ami \<in> records (scan env regions) amiID. ID ami = amiID \<and> Region ami = region)"
    if mem: "(region, amiID) \<in> set (describeImagesCalls (scan env regions))" for region amiID
  proof -
    have e: "entries (scan env regions) amiID = outcome env region amiID"
      using c mem by (rule consistent_entries)
    have "find (observes env amiID) regions = Some region"
      using scan_first_observer [of env regions] mem by blast
    moreover have "\<forall>ami \<in> records (scan env regions) amiID. ID ami = amiID \<and> Region ami = region"
      using held_outcome [of _ env region amiID] by (simp add: records_def e)
    ultimately show ?thesis using e by blast
  qed
  moreover have "records (scan env regions) amiID = {}"
    if "amiID \<notin> snd ` set (describeImagesCalls (scan env regions))" for amiID
    using consistent_unseen [OF c that] by (simp add: records_def held_def)
  ultimately show ?thesis by blast
qed

theorem C5_witness:
  "(''us-east-1'', ''ami-1'')
     \<in> set (describeImagesCalls (scan scenario [''us-east-1'', ''ap-east-1'', ''eu-west-1'']))
   \<and> observes scenario ''ami-1'' ''eu-west-1''
   \<and> find (observes scenario ''ami-1'') [''us-east-1'', ''ap-east-1'', ''eu-west-1'']
       = Some ''us-east-1''
   \<and> entries (scan scenario [''us-east-1'', ''ap-east-1'', ''eu-west-1'']) ''ami-1''
       = outcome scenario ''us-east-1'' ''ami-1''
   \<and> ''ami-9'' \<notin> snd ` set (describeImagesCalls (scan scenario [''us-east-1'', ''ap-east-1'', ''eu-west-1'']))
   \<and> records (scan scenario [''us-east-1'', ''ap-east-1'', ''eu-west-1'']) ''ami-9'' = {}"
proof -
  have m: "(''us-east-1'', ''ami-1'')
     \<in> set (describeImagesCalls (scan scenario [''us-east-1'', ''ap-east-1'', ''eu-west-1'']))"
    by (simp add: run_defs scenario_def)
  have n: "''ami-9'' \<notin> snd ` set (describeImagesCalls (scan scenario [''us-east-1'', ''ap-east-1'', ''eu-west-1'']))"
    by (simp add: run_defs scenario_def)
  have o: "observes scenario ''ami-1'' ''eu-west-1''"
    by (simp add: observes_def visited_def visitedBy_def listed_def imageIDs_def scenario_def
        sampleAccount_def instancesIn_def)
  show ?thesis
    using m n o C5_resolved_once_by_first_region [of scenario "[''us-east-1'', ''ap-east-1'', ''eu-west-1'']"]
    by blast
qed

text \<open>
  C6. When the request for an image id returns an empty image list, the id is filed in the unknown
  map, and stays there until the end of the run, with a record whose owner alias, owner id, name,
  description and visibility are all the string \<open>Unknown\<close>; no other map holds the id.
\<close>

theorem C6_not_found_filed_unknown:
  assumes "(region, amiID) \<in> set (describeImagesCalls (scan env regions))"
    and "DescribeImages env region amiID = Inr []"
  shows "unknownAMIs (scan env regions) amiID =
           Some \<lparr>ID = amiID, Region = region, OwnerAlias = ''Unknown'', OwnerID = ''Unknown'',
                 Name = ''Unknown'', Description = ''Unknown'', Public = ''Unknown''\<rparr>
         \<and> verifiedAMIs (scan env regions) amiID = None
         \<and> privateAMIs (scan env regions) amiID = None
         \<and> unverifiedAMIs (scan env regions) amiID = None"
proof -
  have "entries (scan env regions) amiID = outcome env region amiID"
    using scan_consistent assms(1) by (rule consistent_entries)
  then show ?thesis
    by (simp add: outcome_notfound [OF assms(2)] entries_def unknownRecord_def)
qed

theorem C6_witness:
  "(''eu-west-1'', ''ami-3'') \<in> set (describeImagesCalls (scan scenario [''us-east-1'', ''eu-west-1'']))
   \<and> DescribeImages scenario ''eu-west-1'' ''ami-3'' = Inr []
   \<and> unknownAMIs (scan scenario [''us-east-1'', ''eu-west-1'']) ''ami-3'' =
           Some \<lparr>ID = ''ami-3'', Region = ''eu-west-1'', OwnerAlias = ''Unknown'',
                 OwnerID = ''Unknown'', Name = ''Unknown'', Description = ''Unknown'',
                 Public = ''Unknown''\<rparr>"
proof -
  have m: "(''eu-west-1'', ''ami-3'')
           \<in> set (describeImagesCalls (scan scenario [''us-east-1'', ''eu-west-1'']))"
    by (simp add: run_defs scenario_def)
  have d: "DescribeImages scenario ''eu-west-1'' ''ami-3'' = Inr []"
    by (simp add: scenario_def sampleAccount_def)
  show ?thesis using m d C6_not_found_filed_unknown [OF m d] by simp
qed

text \<open>
  C7. Claim: an image whose request fails with an error is handled as a not-found image, so it is
  filed as Unknown, and the scan is not failed. The code does not file it
  (the counterexample below). Amended: an image id whose request fails is marked as processed
  and is in none of the four maps at the end of the run; the run is not failed by it: the
  remaining work is done, that is, every image id observed by a region of the list is marked,
  was requested in the first region that observes it and holds what that request filed; and
  whenever the configuration, the caller identity and the region list are obtained, \<open>main\<close>
  prints the summary of the scan.
\<close>

theorem C7_resolver_error_not_filed:
  assumes "(region, amiID) \<in> set (describeImagesCalls (scan env regions))"
    and "DescribeImages env region amiID = Inl err"
  shows "seen (scan env regions) amiID
         \<and> entries (scan env regions) amiID = (None, None, None, None)
         \<and> (\<forall>r \<in> set regions. \<forall>a. observes env a r \<longrightarrow>
               seen (scan env regions) a
               \<and> (\<exists>r'. (r', a) \<in> set (describeImagesCalls (scan env regions))
                      \<and> find (observes env a) regions = Some r'
                      \<and> entries (scan env regions) a = outcome env r' a))
         \<and> (LoadDefaultConfig env = None \<and> GetCallerIdentity env = Inr account
              \<and> DescribeRegions env = Inr regions
            \<longrightarrow> main env [] = Inr (summarise (scan env regions)))"
proof -
  have c: "consistent env (scan env regions)" by (rule scan_consistent)
  have "amiID \<in> snd ` set (describeImagesCalls (scan env regions))"
    using assms(1) by force
  then have "seen (scan env regions) amiID" using c by (simp add: processed_iff)
  moreover have "entries (scan env regions) amiID = (None, None, None, None)"
    using consistent_entries [OF c assms(1)] outcome_error [OF assms(2)] by simp
  moreover have "\<forall>r \<in> set regions. \<forall>a. observes env a r \<longrightarrow>
               seen (scan env regions) a
               \<and> (\<exists>r'. (r', a) \<in> set (describeImagesCalls (scan env regions))
                      \<and> find (observes env a) regions = Some r'
                      \<and> entries (scan env regions) a = outcome env r' a)"
    using scan_observed_resolved by blast
  ultimately show ?thesis by (simp add: main_summary)
qed

theorem C7_witness:
  "(''us-east-1'', ''ami-1'')
     \<in> set (describeImagesCalls (scan flaky [''us-east-1'', ''ap-east-1'', ''eu-west-1'']))
   \<and> DescribeImages flaky ''us-east-1'' ''ami-1'' = Inl (ApiError ''RequestLimitExceeded'')
   \<and> observes flaky ''ami-2'' ''us-east-1''
   \<and> LoadDefaultConfig flaky = None \<and> GetCallerIdentity flaky = Inr ''111122223333''
   \<and> DescribeRegions flaky = Inr [''us-east-1'', ''ap-east-1'', ''eu-west-1'']
   \<and> seen (scan flaky [''us-east-1'', ''ap-east-1'', ''eu-west-1'']) ''ami-1''
   \<and> entries (scan flaky [''us-east-1'', ''ap-east-1'', ''eu-west-1'']) ''ami-1''
       = (None, None, None, None)
   \<and> seen (scan flaky [''us-east-1'', ''ap-east-1'', ''eu-west-1'']) ''ami-2''
   \<and> entries (scan flaky [''us-east-1'', ''ap-east-1'', ''eu-west-1'']) ''ami-2''
       = outcome flaky ''us-east-1'' ''ami-2''
   \<and> holding (outcome flaky ''us-east-1'' ''ami-2'') = 1
   \<and> main flaky [] = Inr (summarise (scan flaky [''us-east-1'', ''ap-east-1'', ''eu-west-1'']))"
proof -
  let ?R = "[''us-east-1'', ''ap-east-1'', ''eu-west-1'']"
  have m: "(''us-east-1'', ''ami-1'') \<in> set (describeImagesCalls (scan flaky ?R))"
    by (simp add: run_defs flaky_def)
  have d: "DescribeImages flaky ''us-east-1'' ''ami-1'' = Inl (ApiError ''RequestLimitExceeded'')"
    by (simp add: flaky_def sampleAccount_def)
  have a: "LoadDefaultConfig flaky = None \<and> GetCallerIdentity flaky = Inr ''111122223333''
           \<and> DescribeRegions flaky = Inr ?R"
    by (simp add: flaky_def sampleAccount_def)
  have o: "observes flaky ''ami-2'' ''us-east-1''"
    by (simp add: observes_def visited_def visitedBy_def listed_def imageIDs_def flaky_def
        sampleAccount_def instancesIn_def)
  have f: "find (observes flaky ''ami-2'') ?R = Some ''us-east-1''"
    using o by simp
  have h: "holding (outcome flaky ''us-east-1'' ''ami-2'') = 1"
    by (simp add: outcome_def resolveAMI_def classifyImage_def Let_def ToString_def
        entries_def initial_def holding_def flaky_def sampleAccount_def communityImage_def)
  have r: "''us-east-1'' \<in> set ?R" by simp
  from C7_resolver_error_not_filed [OF m d, of "''111122223333''"] r o
  have "seen (scan flaky ?R) ''ami-2''
        \<and> (\<exists>r'. find (observes flaky ''ami-2'') ?R = Some r'
               \<and> entries (scan flaky ?R) ''ami-2'' = outcome flaky r' ''ami-2'')"
    by blast
  with f have "seen (scan flaky ?R) ''ami-2''
        \<and> entries (scan flaky ?R) ''ami-2'' = outcome flaky ''us-east-1'' ''ami-2''"
    by auto
  then show ?thesis
    using m d a o h C7_resolver_error_not_filed [OF m d, of "''111122223333''"] by simp
qed

theorem C7_counterexample:
  "DescribeImages throttled ''us-east-1'' ''ami-1'' = Inl (ApiError ''RequestLimitExceeded'')
   \<and> describeImagesCalls (scan throttled [''us-east-1'']) = [(''us-east-1'', ''ami-1''), (''us-east-1'', ''ami-2'')]
   \<and> unknownAMIs (scan throttled [''us-east-1'']) ''ami-1'' = None"
  by (simp add: run_defs throttled_def)

text \<open>
  C8. A region whose instance listing fails is skipped and nothing else. The run over a region
  list that contains it ends in the same state (maps, dedup ledger, requests issued, instance
  total) as the run over the list without it. The remaining regions are processed and their
  images classified: every image id observed by one of them is marked, was requested in the
  first remaining region that observes it, and holds at the end what that request filed. And
  \<open>main\<close> still prints the summary.
\<close>

theorem C8_failed_region_skipped:
  assumes "DescribeInstances env region None = Inl err"
  shows "scan env (before @ region # after) = scan env (before @ after)
         \<and> (\<forall>r \<in> set (before @ after). \<forall>a. observes env a r \<longrightarrow>
               seen (scan env (before @ region # after)) a
               \<and> (\<exists>r'. (r', a) \<in> set (describeImagesCalls (scan env (before @ region # after)))
                      \<and> find (observes env a) (before @ after) = Some r'
                      \<and> entries (scan env (before @ region # after)) a = outcome env r' a))
         \<and> (LoadDefaultConfig env = None \<and> GetCallerIdentity env = Inr accountId
              \<and> DescribeRegions env = Inr (before @ region # after)
            \<longrightarrow> main env [] = Inr (summarise (scan env (before @ after))))"
proof -
  have skip: "scan env (before @ region # after) = scan env (before @ after)"
    by (simp add: scan_def scanRegion_failed [OF assms])
  have "\<forall>r \<in> set (before @ after). \<forall>a. observes env a r \<longrightarrow>
               seen (scan env (before @ after)) a
               \<and> (\<exists>r'. (r', a) \<in> set (describeImagesCalls (scan env (before @ after)))
                      \<and> find (observes env a) (before @ after) = Some r'
                      \<and> entries (scan env (before @ after)) a = outcome env r' a)"
    using scan_observed_resolved [of _ "before @ after" env] by blast
  then show ?thesis
    unfolding skip using skip main_summary [of env accountId "before @ region # after"]
    by simp
qed

theorem C8_witness:
  "DescribeInstances scenario ''ap-east-1'' None = Inl (ApiError ''region not enabled'')
   \<and> observes scenario ''ami-3'' ''eu-west-1''
   \<and> LoadDefaultConfig scenario = None \<and> GetCallerIdentity scenario = Inr ''111122223333''
   \<and> DescribeRegions scenario = Inr [''us-east-1'', ''ap-east-1'', ''eu-west-1'']
   \<and> scan scenario [''us-east-1'', ''ap-east-1'', ''eu-west-1'']
       = scan scenario [''us-east-1'', ''eu-west-1'']
   \<and> seen (scan scenario [''us-east-1'', ''ap-east-1'', ''eu-west-1'']) ''ami-3''
   \<and> entries (scan scenario [''us-east-1'', ''ap-east-1'', ''eu-west-1'']) ''ami-3''
       = outcome scenario ''eu-west-1'' ''ami-3''
   \<and> outcome scenario ''eu-west-1'' ''ami-3''
       = (None, None, Some (unknownRecord ''eu-west-1'' ''ami-3''), None)
   \<and> main scenario [] = Inr (summarise (scan scenario [''us-east-1'', ''eu-west-1'']))"
proof -
  let ?R = "[''us-east-1'', ''ap-east-1'', ''eu-west-1'']"
  have f: "DescribeInstances scenario ''ap-east-1'' None = Inl (ApiError ''region not enabled'')"
    by (simp add: scenario_def sampleAccount_def instancesIn_def)
  have a: "LoadDefaultConfig scenario = None \<and> GetCallerIdentity scenario = Inr ''111122223333''
           \<and> DescribeRegions scenario = Inr ([''us-east-1''] @ ''ap-east-1'' # [''eu-west-1''])"
    by (simp add: scenario_def sampleAccount_def)
  have o: "observes scenario ''ami-3'' ''eu-west-1''"
    by (simp add: observes_def visited_def visitedBy_def listed_def imageIDs_def scenario_def
        sampleAccount_def instancesIn_def)
  have n: "\<not> observes scenario ''ami-3'' ''us-east-1''"
    by (simp add: observes_def visited_def visitedBy_def listed_def imageIDs_def scenario_def
        sampleAccount_def instancesIn_def)
  have fnd: "find (observes scenario ''ami-3'') ([''us-east-1''] @ [''eu-west-1'']) = Some ''eu-west-1''"
    using o n by simp
  have oc: "outcome scenario ''eu-west-1'' ''ami-3''
       = (None, None, Some (unknownRecord ''eu-west-1'' ''ami-3''), None)"
    by (rule outcome_notfound) (simp add: scenario_def sampleAccount_def)
  note t = C8_failed_region_skipped [OF f, of "[''us-east-1'']" "[''eu-west-1'']" "''111122223333''"]
  have r: "''eu-west-1'' \<in> set ([''us-east-1''] @ [''eu-west-1''])" by simp
  from t r o
  have "seen (scan scenario ([''us-east-1''] @ ''ap-east-1'' # [''eu-west-1''])) ''ami-3''
        \<and> (\<exists>r'. find (observes scenario ''ami-3'') ([''us-east-1''] @ [''eu-west-1'']) = Some r'
               \<and> entries (scan scenario ([''us-east-1''] @ ''ap-east-1'' # [''eu-west-1''])) ''ami-3''
                   = outcome scenario r' ''ami-3'')"
    by blast
  with fnd have "seen (scan scenario ([''us-east-1''] @ ''ap-east-1'' # [''eu-west-1''])) ''ami-3''
        \<and> entries (scan scenario ([''us-east-1''] @ ''ap-east-1'' # [''eu-west-1''])) ''ami-3''
            = outcome scenario ''eu-west-1'' ''ami-3''"
    by auto
  then show ?thesis using f a o oc t by simp
qed

text \<open>
  C9. Claim: writing the same final maps twice gives byte-identical files. The four loops of
  lines 251-262 visit the keys of a Go map, in an order the language does not fix, so two writes
  of the same maps may order the rows of a category differently
  (the counterexample below). Amended: two writes of the same maps give the header followed by
  the verified, private, unknown and unverified rows, the same rows in each category up to their
  order; the files are byte-identical whenever each map holds at most one record.
\<close>

theorem C9_same_rows_any_order:
  assumes "validIteration it st" and "validIteration it' st"
  shows "mset (verifiedRows it st) = mset (verifiedRows it' st)
         \<and> mset (privateRows it st) = mset (privateRows it' st)
         \<and> mset (unknownRows it st) = mset (unknownRows it' st)
         \<and> mset (unverifiedRows it st) = mset (unverifiedRows it' st)
         \<and> (card (dom (verifiedAMIs st)) \<le> 1 \<and> card (dom (privateAMIs st)) \<le> 1
              \<and> card (dom (unknownAMIs st)) \<le> 1 \<and> card (dom (unverifiedAMIs st)) \<le> 1
            \<longrightarrow> writeReport it st = writeReport it' st)"
proof -
  have v: "iterates (verifiedAMIs st) (verifiedOrder it)" "iterates (verifiedAMIs st) (verifiedOrder it')"
    and p: "iterates (privateAMIs st) (privateOrder it)" "iterates (privateAMIs st) (privateOrder it')"
    and u: "iterates (unknownAMIs st) (unknownOrder it)" "iterates (unknownAMIs st) (unknownOrder it')"
    and w: "iterates (unverifiedAMIs st) (unverifiedOrder it)"
           "iterates (unverifiedAMIs st) (unverifiedOrder it')"
    using assms by (simp_all add: validIteration_def)
  have "mset (verifiedRows it st) = mset (verifiedRows it' st)"
    unfolding verifiedRows_def using v by (rule mset_rows)
  moreover have "mset (privateRows it st) = mset (privateRows it' st)"
    unfolding privateRows_def using p by (rule mset_rows)
  moreover have "mset (unknownRows it st) = mset (unknownRows it' st)"
    unfolding unknownRows_def using u by (rule mset_rows)
  moreover have "mset (unverifiedRows it st) = mset (unverifiedRows it' st)"
    unfolding unverifiedRows_def using w by (rule mset_rows)
  moreover have "writeReport it st = writeReport it' st"
    if "card (dom (verifiedAMIs st)) \<le> 1 \<and> card (dom (privateAMIs st)) \<le> 1
        \<and> card (dom (unknownAMIs st)) \<le> 1 \<and> card (dom (unverifiedAMIs st)) \<le> 1"
  proof -
    have "verifiedOrder it = verifiedOrder it'" using v that by (auto intro: iterates_unique)
    moreover have "privateOrder it = privateOrder it'" using p that by (auto intro: iterates_unique)
    moreover have "unknownOrder it = unknownOrder it'" using u that by (auto intro: iterates_unique)
    moreover have "unverifiedOrder it = unverifiedOrder it'"
      using w that by (auto intro: iterates_unique)
    ultimately show ?thesis
      by (simp add: writeReport_def reportLines_def verifiedRows_def privateRows_def
          unknownRows_def unverifiedRows_def)
  qed
  ultimately show ?thesis by blast
qed

theorem C9_witness:
  "validIteration oneEach (scan scenario [''us-east-1'', ''eu-west-1''])
   \<and> card (dom (verifiedAMIs (scan scenario [''us-east-1'', ''eu-west-1'']))) \<le> 1
   \<and> card (dom (privateAMIs (scan scenario [''us-east-1'', ''eu-west-1'']))) \<le> 1
   \<and> card (dom (unknownAMIs (scan scenario [''us-east-1'', ''eu-west-1'']))) \<le> 1
   \<and> card (dom (unverifiedAMIs (scan scenario [''us-east-1'', ''eu-west-1'']))) \<le> 1
   \<and> mset (verifiedRows oneEach (scan scenario [''us-east-1'', ''eu-west-1'']))
       = mset (verifiedRows oneEach (scan scenario [''us-east-1'', ''eu-west-1'']))
   \<and> writeReport oneEach (scan scenario [''us-east-1'', ''eu-west-1''])
       = writeReport oneEach (scan scenario [''us-east-1'', ''eu-west-1''])"
proof -
  have v: "validIteration oneEach (scan scenario [''us-east-1'', ''eu-west-1''])"
    by (simp add: validIteration_def iterates_def oneEach_def run_defs scenario_def)
  have c: "card (dom (verifiedAMIs (scan scenario [''us-east-1'', ''eu-west-1'']))) \<le> 1
      \<and> card (dom (privateAMIs (scan scenario [''us-east-1'', ''eu-west-1'']))) \<le> 1
      \<and> card (dom (unknownAMIs (scan scenario [''us-east-1'', ''eu-west-1'']))) \<le> 1
      \<and> card (dom (unverifiedAMIs (scan scenario [''us-east-1'', ''eu-west-1'']))) \<le> 1"
    by (simp add: run_defs scenario_def)
  show ?thesis using v c C9_same_rows_any_order [OF v v] by simp
qed

theorem C9_counterexample:
  "validIteration forwards (scan verifiedPair [''us-east-1''])
   \<and> validIteration backwards (scan verifiedPair [''us-east-1''])
   \<and> writeReport forwards (scan verifiedPair [''us-east-1''])
       \<noteq> writeReport backwards (scan verifiedPair [''us-east-1''])"
proof -
  have "validIteration forwards (scan verifiedPair [''us-east-1''])"
    by (simp add: validIteration_def iterates_def forwards_def run_defs verifiedPair_def
        insert_commute)
  moreover have "validIteration backwards (scan verifiedPair [''us-east-1''])"
    by (simp add: validIteration_def iterates_def backwards_def run_defs verifiedPair_def
        insert_commute)
  moreover have "writeReport forwards (scan verifiedPair [''us-east-1''])
       \<noteq> writeReport backwards (scan verifiedPair [''us-east-1''])"
    by (simp add: forwards_def backwards_def run_defs verifiedPair_def writeReport_def
        reportLines_def verifiedRows_def privateRows_def unknownRows_def unverifiedRows_def
        rangeMap_def map_filter_def fullRow_def header_def)
  ultimately show ?thesis by blast
qed

text \<open>
  C10. At every point of the run an image id is in at most one of the four maps. The dedup
  guard lets an id through once, and the one image that the request for it returns is filed in at
  most one map. The statement is for an account that answers a request naming one image id with
  at most one image, as EC2 does (\<open>singleImage\<close>), and for every state the loop passes through
  (\<open>reachable\<close>: the empty maps, then any number of instance-count updates and image-id steps).
\<close>

theorem C10_buckets_disjoint_single_image:
  assumes "singleImage env" and "reachable env st"
  shows "bucketsHolding st amiID \<le> 1"
  using reachable_consistent [OF assms(2)] assms(1) by (rule consistent_holding_le)

theorem C10_witness:
  "singleImage scenario \<and> reachable scenario (scan scenario [''us-east-1'', ''eu-west-1''])
   \<and> bucketsHolding (scan scenario [''us-east-1'', ''eu-west-1'']) ''ami-1'' \<le> 1"
  using singleImage_scenario scan_reachable [of scenario "[''us-east-1'', ''eu-west-1'']"]
    C10_buckets_disjoint_single_image [OF singleImage_scenario scan_reachable,
      of "[''us-east-1'', ''eu-west-1'']" "''ami-1''"]
  by simp

end
